theory Spec2Isabelle
  imports Main
begin

section \<open>The generic SQL driver of kine (pkg/drivers/generic/generic.go)\<close>

text \<open>
  The driver keeps every version of every key as one row of the table \<open>key_value\<close> and
  answers all questions about it with fixed SQL statements. The embedding has three layers:
  \<^item> the dialect adapter \<open>q\<close>, a pure function on strings;
  \<^item> the SQL statements, each translated clause by clause into a function on the list of
    rows of the table;
  \<^item> the methods of \<open>Generic\<close>, written over the three calls the code makes on the
    database handle (\<open>execute\<close>, \<open>query\<close>, \<open>queryRow\<close>), with every error return of the
    source as a branch.
  64-bit integers are modelled as \<open>int\<close>: the code compares and stores them and never
  does arithmetic on them. Byte slices are \<open>string option\<close>, \<open>None\<close> being the nil slice,
  stored as NULL.
\<close>

subsection \<open>The dialect adapter\<close>

text \<open>\<open>strconv.Itoa\<close>: the decimal digits of an integer, with a minus sign when negative.\<close>

definition digit :: "nat \<Rightarrow> char" where
  "digit n = char_of (48 + n)"

fun formatBits :: "nat \<Rightarrow> string" where
  "formatBits n = (if n < 10 then [digit n] else formatBits (n div 10) @ [digit (n mod 10)])"

definition Itoa :: "int \<Rightarrow> string" where
  "Itoa i = (if i < 0 then CHR ''-'' # formatBits (nat (- i)) else formatBits (nat i))"

text \<open>The number a string of decimal digits stands for, read from the left.\<close>

definition digit_value :: "char \<Rightarrow> nat" where
  "digit_value c = of_char c - 48"

definition decimal_value :: "string \<Rightarrow> nat" where
  "decimal_value s = foldl (\<lambda>a c. 10 * a + digit_value c) 0 s"

text \<open>
  \<open>regex.ReplaceAllStringFunc(sql, f)\<close> for the regular expression \<open>\?\<close>: the source
  string is scanned from the left, every byte \<open>?\<close> is a match and is replaced by what the
  callback returns, every other byte is copied. The callback of \<open>q\<close> closes over the
  counter \<open>n\<close>, which is threaded through the scan here.
\<close>

fun ReplaceAllStringFunc :: "string \<Rightarrow> bool \<Rightarrow> int \<Rightarrow> string \<Rightarrow> string" where
  "ReplaceAllStringFunc param numbered n [] = []"
| "ReplaceAllStringFunc param numbered n (c # cs) =
     (if c = CHR ''?'' then
        (if numbered then param @ Itoa (n + 1) @ ReplaceAllStringFunc param numbered (n + 1) cs
         else param @ ReplaceAllStringFunc param numbered n cs)
      else c # ReplaceAllStringFunc param numbered n cs)"

definition q :: "string \<Rightarrow> string \<Rightarrow> bool \<Rightarrow> string" where
  "q sql param numbered =
     (if param = ''?'' \<and> \<not> numbered then sql
      else ReplaceAllStringFunc param numbered 0 sql)"

text \<open>
  What the contract of the adapter says, in its own words: a template is a sequence of
  pieces of text with one placeholder between neighbours; the result has the same pieces,
  and in place of the \<open>k\<close>-th placeholder (counted from the left, from 1) the marker,
  followed by \<open>k\<close> in decimal when markers are numbered.
\<close>

fun template :: "string list \<Rightarrow> string" where
  "template [] = []"
| "template [s] = s"
| "template (s # ss) = s @ CHR ''?'' # template ss"

definition marker :: "string \<Rightarrow> bool \<Rightarrow> int \<Rightarrow> string" where
  "marker param numbered k = (if numbered then param @ Itoa k else param)"

fun rendered :: "string \<Rightarrow> bool \<Rightarrow> int \<Rightarrow> string list \<Rightarrow> string" where
  "rendered param numbered k [] = []"
| "rendered param numbered k [s] = s"
| "rendered param numbered k (s # ss) =
     s @ marker param numbered k @ rendered param numbered (k + 1) ss"

text \<open>The pieces of a string between its placeholders.\<close>

fun pieces :: "string \<Rightarrow> string list" where
  "pieces [] = [[]]"
| "pieces (c # cs) =
     (if c = CHR ''?'' then [] # pieces cs
      else (case pieces cs of [] \<Rightarrow> [[c]] | p # ps \<Rightarrow> (c # p) # ps))"

subsection \<open>The table\<close>

text \<open>
  One row of \<open>key_value\<close>, with the columns the insert statements name and the \<open>id\<close>
  the database assigns. \<open>created\<close> and \<open>deleted\<close> are integer columns: \<open>Insert\<close>
  binds the Go integers \<open>cVal\<close> and \<open>dVal\<close> to them.
\<close>

record kv_row =
  kv_id :: int
  kv_name :: string
  kv_created :: int
  kv_deleted :: int
  kv_create_revision :: int
  kv_prev_revision :: int
  kv_lease :: int
  kv_value :: "string option"
  kv_old_value :: "string option"

datatype error = ErrNoRows | ErrDriver string

text \<open>
  The database behind the handle \<open>d.DB\<close>: the rows of the table, the last \<open>id\<close> its
  generator handed out, and the failures the driver is going to report, one entry for each
  coming call on the handle (\<open>None\<close>: the call runs; past the end of the list every
  call runs). A call that fails leaves the table as it is.
\<close>

record db =
  rows :: "kv_row list"
  last_id :: int
  faults :: "error option list"

definition driver :: "db \<Rightarrow> error option \<times> db" where
  "driver s = (case faults s of [] \<Rightarrow> (None, s) | f # fs \<Rightarrow> (f, s\<lparr>faults := fs\<rparr>))"

record result =
  rows_affected :: int
  last_insert_id :: int

subsection \<open>The SQL statements\<close>

text \<open>
  \<open>name LIKE ?\<close>: \<open>%\<close> stands for any run of characters, \<open>_\<close> for any one
  character, every other character for itself. The first argument is the pattern.
\<close>

fun like :: "string \<Rightarrow> string \<Rightarrow> bool" where
  "like [] [] = True"
| "like [] (c # cs) = False"
| "like (p # ps) [] = (p = CHR ''%'' \<and> like ps [])"
| "like (p # ps) (c # cs) =
     (if p = CHR ''%'' then like ps (c # cs) \<or> like (p # ps) cs
      else (p = CHR ''_'' \<or> p = c) \<and> like ps cs)"

text \<open>A subquery in parentheses used as a value: its first row, NULL when it has none.\<close>

definition scalar :: "'a list \<Rightarrow> 'a option" where
  "scalar rs = (case rs of [] \<Rightarrow> None | r # _ \<Rightarrow> Some r)"

text \<open>\<open>SELECT rkv.id FROM key_value rkv ORDER BY rkv.id DESC LIMIT 1\<close>\<close>

definition revSQL :: "kv_row list \<Rightarrow> int list" where
  "revSQL t = take 1 (map kv_id (rev (sort_key kv_id t)))"

text \<open>\<open>SELECT crkv.prev_revision FROM key_value crkv WHERE crkv.name = 'compact_rev_key'
  ORDER BY crkv.id DESC LIMIT 1\<close>\<close>

definition compactRevSQL :: "kv_row list \<Rightarrow> int list" where
  "compactRevSQL t =
     take 1 (map kv_prev_revision
       (rev (sort_key kv_id (filter (\<lambda>crkv. kv_name crkv = ''compact_rev_key'') t))))"

text \<open>
  A row of a listing: the two subqueries \<open>(revSQL)\<close> and \<open>(compactRevSQL)\<close>, then
  \<open>columns\<close>, the nine columns of the row \<open>kv\<close>, its \<open>id\<close> under the name \<open>theid\<close>.
\<close>

record list_row =
  lr_rev :: "int option"
  lr_compact :: "int option"
  lr_kv :: kv_row

abbreviation theid :: "list_row \<Rightarrow> int" where
  "theid r \<equiv> kv_id (lr_kv r)"

definition select_columns :: "kv_row list \<Rightarrow> kv_row \<Rightarrow> list_row" where
  "select_columns t kv =
     \<lparr>lr_rev = scalar (revSQL t), lr_compact = scalar (compactRevSQL t), lr_kv = kv\<rparr>"

text \<open>
  \<open>SELECT MAX(mkv.id) as id FROM key_value mkv WHERE mkv.name LIKE ? %s GROUP BY mkv.name\<close>:
  one row for each name among the rows that pass the \<open>WHERE\<close> clause, holding the largest
  \<open>id\<close> of the rows of that name. \<open>P\<close> is the whole \<open>WHERE\<close> clause.
\<close>

definition maxkv :: "(kv_row \<Rightarrow> bool) \<Rightarrow> kv_row list \<Rightarrow> int list" where
  "maxkv P t =
     (let ms = filter P t
      in map (\<lambda>n. Max (set (map kv_id (filter (\<lambda>mkv. kv_name mkv = n) ms))))
           (remdups (map kv_name ms)))"

text \<open>
  \<open>listSQL\<close>: the rows of \<open>key_value kv\<close> joined with \<open>maxkv\<close> on
  \<open>maxkv.id = kv.id\<close>, kept \<open>WHERE (kv.deleted = 0 OR ?)\<close>, \<open>ORDER BY kv.id ASC\<close>.
  \<open>extra\<close> is the fragment put in place of \<open>%s\<close>; it may read the table (the
  subquery of \<open>idOfKey\<close>). The placeholders are, in order: the pattern, those of the
  fragment, the flag.
\<close>

definition listSQL ::
  "(kv_row list \<Rightarrow> kv_row \<Rightarrow> bool) \<Rightarrow> string \<Rightarrow> bool \<Rightarrow> kv_row list \<Rightarrow> list_row list" where
  "listSQL extra pat includeDeleted t =
     map (select_columns t)
       (sort_key kv_id
         (filter (\<lambda>kv. kv_deleted kv = 0 \<or> includeDeleted)
           [kv. kv \<leftarrow> t,
                m \<leftarrow> maxkv (\<lambda>mkv. like pat (kv_name mkv) \<and> extra t mkv) t,
                m = kv_id kv]))"

text \<open>\<open>fmt.Sprintf(listSQL, "")\<close>\<close>

definition GetCurrentSQL :: "string \<Rightarrow> bool \<Rightarrow> kv_row list \<Rightarrow> list_row list" where
  "GetCurrentSQL pat includeDeleted = listSQL (\<lambda>t mkv. True) pat includeDeleted"

text \<open>\<open>fmt.Sprintf(listSQL, "AND mkv.id <= ?")\<close>\<close>

definition ListRevisionStartSQL ::
  "string \<Rightarrow> int \<Rightarrow> bool \<Rightarrow> kv_row list \<Rightarrow> list_row list" where
  "ListRevisionStartSQL pat revision includeDeleted =
     listSQL (\<lambda>t mkv. kv_id mkv \<le> revision) pat includeDeleted"

text \<open>
  \<open>idOfKey\<close>: \<open>AND mkv.id <= ? AND mkv.id > (SELECT ikv.id FROM key_value ikv WHERE
  ikv.name = ? AND ikv.id <= ? ORDER BY ikv.id DESC LIMIT 1)\<close>. A comparison with the
  NULL of an empty subquery is not true.
\<close>

definition idOfKey :: "int \<Rightarrow> string \<Rightarrow> int \<Rightarrow> kv_row list \<Rightarrow> kv_row \<Rightarrow> bool" where
  "idOfKey revision startKey revision' t mkv =
     (kv_id mkv \<le> revision \<and>
      (case scalar (take 1 (map kv_id (rev (sort_key kv_id
              (filter (\<lambda>ikv. kv_name ikv = startKey \<and> kv_id ikv \<le> revision') t))))) of
         None \<Rightarrow> False
       | Some i \<Rightarrow> kv_id mkv > i))"

text \<open>\<open>fmt.Sprintf(listSQL, idOfKey)\<close>\<close>

definition GetRevisionAfterSQL ::
  "string \<Rightarrow> int \<Rightarrow> string \<Rightarrow> int \<Rightarrow> bool \<Rightarrow> kv_row list \<Rightarrow> list_row list" where
  "GetRevisionAfterSQL pat revision startKey revision' includeDeleted =
     listSQL (idOfKey revision startKey revision') pat includeDeleted"

text \<open>\<open>SELECT 0, 0, columns FROM key_value kv WHERE kv.id = ?\<close>\<close>

definition GetRevisionSQL :: "int \<Rightarrow> kv_row list \<Rightarrow> list_row list" where
  "GetRevisionSQL revision t =
     map (\<lambda>kv. \<lparr>lr_rev = Some 0, lr_compact = Some 0, lr_kv = kv\<rparr>)
       (filter (\<lambda>kv. kv_id kv = revision) t)"

text \<open>\<open>SELECT (revSQL), COUNT(c.theid) FROM (listSQL) c\<close>: an aggregate without
  \<open>GROUP BY\<close>, so always one row.\<close>

definition CountSQL :: "string \<Rightarrow> bool \<Rightarrow> kv_row list \<Rightarrow> (int option \<times> int) list" where
  "CountSQL pat includeDeleted t =
     [(scalar (revSQL t), int (length (listSQL (\<lambda>t mkv. True) pat includeDeleted t)))]"


text \<open>\<open>DELETE FROM key_value WHERE id = ?\<close>\<close>

definition DeleteSQL :: "int \<Rightarrow> db \<Rightarrow> result \<times> db" where
  "DeleteSQL revision s =
     (\<lparr>rows_affected = int (length (filter (\<lambda>r. kv_id r = revision) (rows s))),
       last_insert_id = 0\<rparr>,
      s\<lparr>rows := filter (\<lambda>r. kv_id r \<noteq> revision) (rows s)\<rparr>)"

text \<open>\<open>UPDATE key_value SET prev_revision = ? WHERE name = 'compact_rev_key'\<close>. The
  rows affected are the rows the \<open>WHERE\<close> clause selects.\<close>

definition UpdateCompactSQL :: "int \<Rightarrow> db \<Rightarrow> result \<times> db" where
  "UpdateCompactSQL revision s =
     (\<lparr>rows_affected = int (length (filter (\<lambda>r. kv_name r = ''compact_rev_key'') (rows s))),
       last_insert_id = 0\<rparr>,
      s\<lparr>rows := map (\<lambda>r. if kv_name r = ''compact_rev_key''
                           then r\<lparr>kv_prev_revision := revision\<rparr> else r) (rows s)\<rparr>)"

text \<open>
  Modelled from the spec: the declaration of the table \<open>key_value\<close>, which makes the
  database assign \<open>id\<close>, is not in generic.go. The spec's data model gives \<open>id\<close> as a
  "monotonically increasing integer, globally unique, assigned by the database"; here the
  new row of an insert gets \<open>last_id + 1\<close>, which becomes the new \<open>last_id\<close>.

  \<open>INSERT INTO key_value(name, created, deleted, create_revision, prev_revision, lease,
  value, old_value) values(?, ?, ?, ?, ?, ?, ?, ?)\<close>
\<close>

definition insert_values ::
  "string \<Rightarrow> int \<Rightarrow> int \<Rightarrow> int \<Rightarrow> int \<Rightarrow> int \<Rightarrow> string option \<Rightarrow> string option \<Rightarrow> db \<Rightarrow> int \<times> db" where
  "insert_values name created deleted create_revision prev_revision lease val old_value s =
     (let i = last_id s + 1
      in (i, s\<lparr>rows := rows s @
                 [\<lparr>kv_id = i, kv_name = name, kv_created = created, kv_deleted = deleted,
                   kv_create_revision = create_revision, kv_prev_revision = prev_revision,
                   kv_lease = lease, kv_value = val, kv_old_value = old_value\<rparr>],
               last_id := i\<rparr>))"

definition InsertLastInsertIDSQL ::
  "string \<Rightarrow> int \<Rightarrow> int \<Rightarrow> int \<Rightarrow> int \<Rightarrow> int \<Rightarrow> string option \<Rightarrow> string option \<Rightarrow> db \<Rightarrow> result \<times> db" where
  "InsertLastInsertIDSQL name created deleted create_revision prev_revision lease val old_value s =
     (case insert_values name created deleted create_revision prev_revision lease val old_value s of
        (i, s') \<Rightarrow> (\<lparr>rows_affected = 1, last_insert_id = i\<rparr>, s'))"

text \<open>The same statement with \<open>RETURNING id\<close>: it answers with one row, the new \<open>id\<close>.\<close>

definition InsertSQL ::
  "string \<Rightarrow> int \<Rightarrow> int \<Rightarrow> int \<Rightarrow> int \<Rightarrow> int \<Rightarrow> string option \<Rightarrow> string option \<Rightarrow> db \<Rightarrow> int list \<times> db" where
  "InsertSQL name created deleted create_revision prev_revision lease val old_value s =
     (case insert_values name created deleted create_revision prev_revision lease val old_value s of
        (i, s') \<Rightarrow> ([i], s'))"

subsection \<open>The calls on the database handle\<close>

text \<open>
  \<open>execute\<close> is \<open>ExecContext\<close>, \<open>query\<close> is \<open>QueryContext\<close>: an error, or the
  result. \<open>queryRow\<close> is \<open>QueryRowContext\<close>: it runs the statement and returns a row
  that holds the error, if any, until \<open>Scan\<close>; \<open>Scan\<close> on an empty answer is
  \<open>sql.ErrNoRows\<close>. \<open>RowsAffected\<close> and \<open>LastInsertId\<close> are the two methods of
  \<open>sql.Result\<close>, each of which a driver may refuse.
\<close>

definition execute :: "(db \<Rightarrow> result \<times> db) \<Rightarrow> db \<Rightarrow> (error + result) \<times> db" where
  "execute stmt s =
     (case driver s of
        (Some err, s1) \<Rightarrow> (Inl err, s1)
      | (None, s1) \<Rightarrow> (case stmt s1 of (res, s2) \<Rightarrow> (Inr res, s2)))"

definition query :: "(kv_row list \<Rightarrow> 'a list) \<Rightarrow> db \<Rightarrow> (error + 'a list) \<times> db" where
  "query stmt s =
     (case driver s of
        (Some err, s1) \<Rightarrow> (Inl err, s1)
      | (None, s1) \<Rightarrow> (Inr (stmt (rows s1)), s1))"

definition queryRow :: "(db \<Rightarrow> 'a list \<times> db) \<Rightarrow> db \<Rightarrow> (error + 'a list) \<times> db" where
  "queryRow stmt s =
     (case driver s of
        (Some err, s1) \<Rightarrow> (Inl err, s1)
      | (None, s1) \<Rightarrow> (case stmt s1 of (rs, s2) \<Rightarrow> (Inr rs, s2)))"

definition reading :: "(kv_row list \<Rightarrow> 'a list) \<Rightarrow> db \<Rightarrow> 'a list \<times> db" where
  "reading stmt s = (stmt (rows s), s)"

definition Scan :: "error + 'a list \<Rightarrow> error + 'a" where
  "Scan row = (case row of Inl err \<Rightarrow> Inl err | Inr [] \<Rightarrow> Inl ErrNoRows | Inr (r # _) \<Rightarrow> Inr r)"

definition RowsAffected :: "result \<Rightarrow> db \<Rightarrow> (error + int) \<times> db" where
  "RowsAffected res s =
     (case driver s of (Some err, s1) \<Rightarrow> (Inl err, s1) | (None, s1) \<Rightarrow> (Inr (rows_affected res), s1))"

definition LastInsertId :: "result \<Rightarrow> db \<Rightarrow> (error + int) \<times> db" where
  "LastInsertId res s =
     (case driver s of (Some err, s1) \<Rightarrow> (Inl err, s1) | (None, s1) \<Rightarrow> (Inr (last_insert_id res), s1))"

subsection \<open>The methods of Generic\<close>

text \<open>
  Of the fields of \<open>Generic\<close> only \<open>LastInsertID\<close> is a choice: the statements are the
  ones \<open>Open\<close> builds, and the mutex orders callers that do not exist in a sequential
  model. A Go result \<open>(v, err)\<close> is a pair whose second part is \<open>None\<close> for \<open>nil\<close>.
\<close>

record Generic =
  LastInsertID :: bool

definition Insert ::
  "Generic \<Rightarrow> string \<Rightarrow> bool \<Rightarrow> bool \<Rightarrow> int \<Rightarrow> int \<Rightarrow> int \<Rightarrow> string option \<Rightarrow> string option
     \<Rightarrow> db \<Rightarrow> (int \<times> error option) \<times> db" where
  "Insert d key create delete createRevision previousRevision ttl val prevValue s =
     (let cVal = (if create then 1 else 0);
          dVal = (if delete then 1 else 0)
      in if LastInsertID d then
           (case execute (InsertLastInsertIDSQL key cVal dVal createRevision previousRevision
                            ttl val prevValue) s of
              (Inl err, s1) \<Rightarrow> ((0, Some err), s1)
            | (Inr row, s1) \<Rightarrow>
                (case LastInsertId row s1 of
                   (Inl err, s2) \<Rightarrow> ((0, Some err), s2)
                 | (Inr i, s2) \<Rightarrow> ((i, None), s2)))
         else
           (case queryRow (InsertSQL key cVal dVal createRevision previousRevision
                             ttl val prevValue) s of
              (row, s1) \<Rightarrow>
                (case Scan row of
                   Inl err \<Rightarrow> ((0, Some err), s1)
                 | Inr i \<Rightarrow> ((i, None), s1))))"

definition GetCompactRevision :: "db \<Rightarrow> (int \<times> error option) \<times> db" where
  "GetCompactRevision s =
     (case queryRow (reading compactRevSQL) s of
        (row, s1) \<Rightarrow>
          (case Scan row of
             Inl err \<Rightarrow> (if err = ErrNoRows then ((0, None), s1) else ((0, Some err), s1))
           | Inr i \<Rightarrow> ((i, None), s1)))"

definition SetCompactRevision :: "Generic \<Rightarrow> int \<Rightarrow> db \<Rightarrow> error option \<times> db" where
  "SetCompactRevision d revision s =
     (case execute (UpdateCompactSQL revision) s of
        (Inl err, s1) \<Rightarrow> (Some err, s1)
      | (Inr res, s1) \<Rightarrow>
          (case RowsAffected res s1 of
             (Inl err, s2) \<Rightarrow> (Some err, s2)
           | (Inr num, s2) \<Rightarrow>
               if num \<noteq> 0 then (None, s2)
               else (case Insert d ''compact_rev_key'' False False 0 revision 0 (Some []) None s2 of
                       ((_, err), s3) \<Rightarrow> (err, s3))))"

definition GetRevision :: "int \<Rightarrow> db \<Rightarrow> (error + list_row list) \<times> db" where
  "GetRevision revision s = query (GetRevisionSQL revision) s"

definition DeleteRevision :: "int \<Rightarrow> db \<Rightarrow> error option \<times> db" where
  "DeleteRevision revision s =
     (case execute (DeleteSQL revision) s of
        (Inl err, s1) \<Rightarrow> (Some err, s1)
      | (Inr _, s1) \<Rightarrow> (None, s1))"

text \<open>\<open>fmt.Sprintf("%s LIMIT %d", sql, limit)\<close>, done when \<open>limit > 0\<close>.\<close>

definition with_limit :: "int \<Rightarrow> (kv_row list \<Rightarrow> 'a list) \<Rightarrow> kv_row list \<Rightarrow> 'a list" where
  "with_limit limit sql = (if limit > 0 then (\<lambda>t. take (nat limit) (sql t)) else sql)"


definition List ::
  "string \<Rightarrow> string \<Rightarrow> int \<Rightarrow> int \<Rightarrow> bool \<Rightarrow> db \<Rightarrow> (error + list_row list) \<times> db" where
  "List prefix startKey limit revision includeDeleted s =
     (if startKey = [] then
        query (with_limit limit (ListRevisionStartSQL prefix revision includeDeleted)) s
      else
        query (with_limit limit
                 (GetRevisionAfterSQL prefix revision startKey revision includeDeleted)) s)"

definition Count :: "string \<Rightarrow> db \<Rightarrow> (int \<times> int \<times> error option) \<times> db" where
  "Count prefix s =
     (case queryRow (reading (CountSQL prefix False)) s of
        (row, s1) \<Rightarrow>
          (case Scan row of
             Inl err \<Rightarrow> ((0, 0, Some err), s1)
           | Inr (rev', i) \<Rightarrow> (((case rev' of None \<Rightarrow> 0 | Some r \<Rightarrow> r), i, None), s1)))"

definition CurrentRevision :: "db \<Rightarrow> (int \<times> error option) \<times> db" where
  "CurrentRevision s =
     (case queryRow (reading revSQL) s of
        (row, s1) \<Rightarrow>
          (case Scan row of
             Inl err \<Rightarrow> (if err = ErrNoRows then ((0, None), s1) else ((0, Some err), s1))
           | Inr i \<Rightarrow> ((i, None), s1)))"


subsection \<open>Names used in the statements\<close>

text \<open>
  The sentinel rows of a table, the row \<open>SetCompactRevision\<close> inserts, and what the
  compaction update does to one row.
\<close>

definition sentinels :: "kv_row list \<Rightarrow> kv_row list" where
  "sentinels t = filter (\<lambda>r. kv_name r = ''compact_rev_key'') t"

definition compact_row :: "int \<Rightarrow> int \<Rightarrow> kv_row" where
  "compact_row i R =
     \<lparr>kv_id = i, kv_name = ''compact_rev_key'', kv_created = 0, kv_deleted = 0,
      kv_create_revision = 0, kv_prev_revision = R, kv_lease = 0, kv_value = Some [],
      kv_old_value = None\<rparr>"

definition set_floor :: "int \<Rightarrow> kv_row \<Rightarrow> kv_row" where
  "set_floor R r = (if kv_name r = ''compact_rev_key'' then r\<lparr>kv_prev_revision := R\<rparr> else r)"

text \<open>
  The states of the database that the driver can produce: it starts on an empty table
  whose generator has handed out nothing, the three writing methods are called with any
  arguments, one call after the other, and the driver may fail any call (the reading
  methods change nothing but the list of coming failures).
\<close>

inductive reachable :: "Generic \<Rightarrow> db \<Rightarrow> bool" for d :: Generic where
  fresh: "reachable d \<lparr>rows = [], last_id = 0, faults = fs\<rparr>"
| after_Insert: "reachable d s \<Longrightarrow>
     reachable d (snd (Insert d key create delete createRevision previousRevision ttl val prevValue s))"
| after_SetCompactRevision: "reachable d s \<Longrightarrow> reachable d (snd (SetCompactRevision d revision s))"
| after_DeleteRevision: "reachable d s \<Longrightarrow> reachable d (snd (DeleteRevision revision s))"
| driver_plan: "reachable d s \<Longrightarrow> reachable d (s\<lparr>faults := fs\<rparr>)"

text \<open>What holds of every such state: ids are positive, unique and not above the last
  one handed out, and the two flags are 0 or 1.\<close>

definition well_formed :: "db \<Rightarrow> bool" where
  "well_formed s =
     (0 \<le> last_id s \<and>
      (\<forall>r \<in> set (rows s). 0 < kv_id r \<and> kv_id r \<le> last_id s \<and>
          kv_created r \<in> {0, 1} \<and> kv_deleted r \<in> {0, 1}) \<and>
      distinct (map kv_id (rows s)))"

subsection \<open>Example tables\<close>

text \<open>
  The two kinds of engine (\<open>RETURNING id\<close>, or the serialized read-back of the last
  inserted id), the empty table, and the tables of two short histories: a key \<open>x\<close>
  written and then deleted, and the sentinel key written twice through \<open>Insert\<close>.
\<close>

definition returning_engine :: Generic where
  "returning_engine = \<lparr>LastInsertID = False\<rparr>"


definition empty_table :: db where
  "empty_table = \<lparr>rows = [], last_id = 0, faults = []\<rparr>"

definition x_live :: kv_row where
  "x_live = \<lparr>kv_id = 1, kv_name = ''x'', kv_created = 1, kv_deleted = 0, kv_create_revision = 0,
              kv_prev_revision = 0, kv_lease = 0, kv_value = Some ''v'', kv_old_value = None\<rparr>"

definition x_tomb :: kv_row where
  "x_tomb = \<lparr>kv_id = 2, kv_name = ''x'', kv_created = 0, kv_deleted = 1, kv_create_revision = 1,
              kv_prev_revision = 1, kv_lease = 0, kv_value = Some [], kv_old_value = Some ''v''\<rparr>"

definition deleted_x :: db where
  "deleted_x =
     snd (Insert returning_engine ''x'' False True 1 1 0 (Some []) (Some ''v'')
       (snd (Insert returning_engine ''x'' True False 0 0 0 (Some ''v'') None empty_table)))"


section \<open>Properties\<close>

subsection \<open>The dialect adapter\<close>

text \<open>\<open>Itoa\<close> of a number that is not negative writes that number in decimal.\<close>

lemma digit_value_digit: "n < 10 \<Longrightarrow> digit_value (digit n) = n"
  by (simp add: digit_value_def digit_def)

lemma decimal_value_snoc: "decimal_value (s @ [c]) = 10 * decimal_value s + digit_value c"
  by (simp add: decimal_value_def)

lemma decimal_value_formatBits: "decimal_value (formatBits n) = n"
proof (induction n rule: formatBits.induct)
  case (1 n)
  show ?case
  proof (cases "n < 10")
    case True
    then have "formatBits n = [digit n]" by (subst formatBits.simps) simp
    then show ?thesis using True by (simp add: decimal_value_def digit_value_digit)
  next
    case False
    then have "formatBits n = formatBits (n div 10) @ [digit (n mod 10)]"
      by (subst formatBits.simps) simp
    then have "decimal_value (formatBits n) = 10 * (n div 10) + n mod 10"
      using "1.IH" [OF False] by (simp only: decimal_value_snoc) (simp add: digit_value_digit)
    then show ?thesis by simp
  qed
qed

lemma decimal_value_Itoa: "0 \<le> k \<Longrightarrow> int (decimal_value (Itoa k)) = k"
  by (simp add: Itoa_def decimal_value_formatBits del: formatBits.simps)

lemma ReplaceAllStringFunc_piece:
  "CHR ''?'' \<notin> set s \<Longrightarrow>
   ReplaceAllStringFunc param numbered n (s @ rest) = s @ ReplaceAllStringFunc param numbered n rest"
  by (induction s) auto

lemma ReplaceAllStringFunc_placeholder:
  "ReplaceAllStringFunc param numbered n (CHR ''?'' # rest) =
   marker param numbered (n + 1) @
     ReplaceAllStringFunc param numbered (if numbered then n + 1 else n) rest"
  by (simp add: marker_def)

lemma rendered_unnumbered_shift:
  "rendered param False k segs = rendered param False j segs"
  by (induction segs arbitrary: k j rule: template.induct) (auto simp: marker_def)

lemma ReplaceAllStringFunc_template:
  "\<forall>s \<in> set segs. CHR ''?'' \<notin> set s \<Longrightarrow>
   ReplaceAllStringFunc param numbered n (template segs) = rendered param numbered (n + 1) segs"
proof (induction segs arbitrary: n rule: template.induct)
  case 1
  show ?case by simp
next
  case (2 s)
  then show ?case using ReplaceAllStringFunc_piece [of s param numbered n "[]"] by simp
next
  case (3 s v va)
  have s: "CHR ''?'' \<notin> set s" and rest: "\<forall>s \<in> set (v # va). CHR ''?'' \<notin> set s"
    using "3.prems" by auto
  have "ReplaceAllStringFunc param numbered n (template (s # v # va)) =
        s @ ReplaceAllStringFunc param numbered n (CHR ''?'' # template (v # va))"
    using ReplaceAllStringFunc_piece [OF s] by simp
  also have "\<dots> = s @ marker param numbered (n + 1) @
        ReplaceAllStringFunc param numbered (if numbered then n + 1 else n) (template (v # va))"
    by (simp only: ReplaceAllStringFunc_placeholder)
  also have "\<dots> = s @ marker param numbered (n + 1) @
        rendered param numbered ((if numbered then n + 1 else n) + 1) (v # va)"
    by (simp only: "3.IH" [OF rest])
  also have "\<dots> = s @ marker param numbered (n + 1) @ rendered param numbered (n + 1 + 1) (v # va)"
    using rendered_unnumbered_shift [of param "n + 1" "v # va" "n + 1 + 1"]
    by (cases numbered) simp_all
  finally show ?case by simp
qed

lemma rendered_question_mark: "rendered ''?'' False k segs = template segs"
  by (induction segs arbitrary: k rule: template.induct) (auto simp: marker_def)

lemma pieces_nonempty: "pieces sql \<noteq> []"
  by (induction sql) (auto split: list.splits)

lemma template_pieces: "template (pieces sql) = sql"
proof (induction sql)
  case Nil
  show ?case by simp
next
  case (Cons c cs)
  obtain p ps where p: "pieces cs = p # ps"
    using pieces_nonempty [of cs] by (cases "pieces cs") auto
  show ?case
  proof (cases "c = CHR ''?''")
    case True
    then show ?thesis using p Cons by simp
  next
    case False
    then show ?thesis using p Cons by (cases ps) simp_all
  qed
qed

lemma pieces_no_placeholder: "\<forall>s \<in> set (pieces sql). CHR ''?'' \<notin> set s"
  by (induction sql) (auto split: list.splits)

text \<open>
  C5. The adapter \<open>q\<close> is a function of its three arguments alone. Every template is its
  pieces (texts without a placeholder) with one \<open>?\<close> between neighbours, and \<open>q\<close> returns
  the same pieces with the \<open>k\<close>-th \<open>?\<close> from the left replaced by the marker, followed
  by the decimal number \<open>k\<close> (from 1) when \<open>numbered\<close> is set. Nothing else changes.
\<close>

theorem q_contract:
  "template (pieces sql) = sql \<and>
   (\<forall>s \<in> set (pieces sql). CHR ''?'' \<notin> set s) \<and>
   q sql param numbered = rendered param numbered 1 (pieces sql)"
proof -
  have "ReplaceAllStringFunc param numbered 0 (template (pieces sql)) =
        rendered param numbered 1 (pieces sql)"
    using ReplaceAllStringFunc_template [OF pieces_no_placeholder, where n = 0] by simp
  moreover have "param = ''?'' \<and> \<not> numbered \<Longrightarrow> rendered param numbered 1 (pieces sql) = sql"
    using rendered_question_mark [where k = 1 and segs = "pieces sql"]
    by (simp add: template_pieces)
  ultimately show ?thesis
    by (auto simp: q_def template_pieces pieces_no_placeholder)
qed

theorem q_contract_witness:
  "q ''id = ? AND name = ?'' ''$'' True = ''id = $1 AND name = $2''"
proof -
  have "q ''id = ? AND name = ?'' ''$'' True = rendered ''$'' True 1 (pieces ''id = ? AND name = ?'')"
    using q_contract [of "''id = ? AND name = ?''" "''$''" True] by blast
  also have "\<dots> = ''id = $1 AND name = $2''"
    by code_simp
  finally show ?thesis .
qed

subsection \<open>The calls on the database handle\<close>

lemma driver_runs: "faults s = [] \<Longrightarrow> driver s = (None, s)"
  by (simp add: driver_def)

lemma driver_shape: "\<exists>f fs. driver s = (f, s\<lparr>faults := fs\<rparr>)"
proof (cases "faults s")
  case Nil
  then have "driver s = (None, s\<lparr>faults := []\<rparr>)" by (simp add: driver_def)
  then show ?thesis by blast
next
  case (Cons f fs)
  then have "driver s = (f, s\<lparr>faults := fs\<rparr>)" by (simp add: driver_def)
  then show ?thesis by blast
qed

lemma query_cases:
  "fst (query stmt s) = (case fst (driver s) of Some err \<Rightarrow> Inl err | None \<Rightarrow> Inr (stmt (rows s)))"
  by (simp add: query_def driver_def split: list.splits option.splits)

lemma query_Inr: "fst (query stmt s) = Inr rs \<Longrightarrow> rs = stmt (rows s)"
  by (simp add: query_cases split: option.splits)

lemma query_runs: "faults s = [] \<Longrightarrow> query stmt s = (Inr (stmt (rows s)), s)"
  by (simp add: query_def driver_runs)

lemma queryRow_runs: "faults s = [] \<Longrightarrow> queryRow stmt s = (Inr (fst (stmt s)), snd (stmt s))"
  by (simp add: queryRow_def driver_runs split: prod.splits)

lemma execute_runs: "faults s = [] \<Longrightarrow> execute stmt s = (Inr (fst (stmt s)), snd (stmt s))"
  by (simp add: execute_def driver_runs split: prod.splits)

lemma RowsAffected_runs: "faults s = [] \<Longrightarrow> RowsAffected res s = (Inr (rows_affected res), s)"
  by (simp add: RowsAffected_def driver_runs)

lemma LastInsertId_runs: "faults s = [] \<Longrightarrow> LastInsertId res s = (Inr (last_insert_id res), s)"
  by (simp add: LastInsertId_def driver_runs)

lemma execute_driver:
  "driver s = (f, s1) \<Longrightarrow>
   execute stmt s = (case f of Some e \<Rightarrow> (Inl e, s1) | None \<Rightarrow> (Inr (fst (stmt s1)), snd (stmt s1)))"
  by (simp add: execute_def split: option.splits prod.splits)

lemma queryRow_driver:
  "driver s = (f, s1) \<Longrightarrow>
   queryRow stmt s = (case f of Some e \<Rightarrow> (Inl e, s1) | None \<Rightarrow> (Inr (fst (stmt s1)), snd (stmt s1)))"
  by (simp add: queryRow_def split: option.splits prod.splits)

lemma LastInsertId_driver:
  "driver s = (f, s1) \<Longrightarrow>
   LastInsertId res s = (case f of Some e \<Rightarrow> (Inl e, s1) | None \<Rightarrow> (Inr (last_insert_id res), s1))"
  by (simp add: LastInsertId_def split: option.splits)

lemma RowsAffected_driver:
  "driver s = (f, s1) \<Longrightarrow>
   RowsAffected res s = (case f of Some e \<Rightarrow> (Inl e, s1) | None \<Rightarrow> (Inr (rows_affected res), s1))"
  by (simp add: RowsAffected_def split: option.splits)

lemma set_with_limit: "set (with_limit limit sql t) \<subseteq> set (sql t)"
  by (auto simp: with_limit_def dest: in_set_takeD)

lemma with_limit_none: "limit \<le> 0 \<Longrightarrow> with_limit limit sql = sql"
  by (simp add: with_limit_def)

subsection \<open>Insert\<close>

lemma faults_insert_values [simp]:
  "faults (snd (insert_values k c dl cr pr ttl v pv s)) = faults s"
  by (simp add: insert_values_def Let_def)

lemma InsertLastInsertIDSQL_eq:
  "InsertLastInsertIDSQL key c dl cr pr ttl v pv s =
     (\<lparr>rows_affected = 1, last_insert_id = last_id s + 1\<rparr>,
      snd (insert_values key c dl cr pr ttl v pv s))"
  by (simp add: InsertLastInsertIDSQL_def insert_values_def Let_def)

lemma InsertSQL_eq:
  "InsertSQL key c dl cr pr ttl v pv s =
     ([last_id s + 1], snd (insert_values key c dl cr pr ttl v pv s))"
  by (simp add: InsertSQL_def insert_values_def Let_def)

lemma Insert_runs:
  "faults s = [] \<Longrightarrow>
   Insert d key c dl cr pr ttl v pv s =
     ((last_id s + 1, None),
      snd (insert_values key (if c then 1 else 0) (if dl then 1 else 0) cr pr ttl v pv s))"
  by (cases "LastInsertID d")
     (simp_all add: Insert_def Let_def execute_runs queryRow_runs LastInsertId_runs Scan_def
        InsertSQL_def InsertLastInsertIDSQL_def insert_values_def)

lemma Insert_effect:
  "\<exists>fs. snd (Insert d key c dl cr pr ttl v pv s) = s\<lparr>faults := fs\<rparr> \<or>
        snd (Insert d key c dl cr pr ttl v pv s) =
          snd (insert_values key (if c then 1 else 0) (if dl then 1 else 0) cr pr ttl v pv
                 (s\<lparr>faults := fs\<rparr>))"
proof -
  let ?c = "if c then 1 else 0 :: int" and ?dl = "if dl then 1 else 0 :: int"
  obtain f fs where d1: "driver s = (f, s\<lparr>faults := fs\<rparr>)" using driver_shape by blast
  let ?s1 = "s\<lparr>faults := fs\<rparr>"
  let ?s2 = "snd (insert_values key ?c ?dl cr pr ttl v pv ?s1)"
  obtain g gs where d2: "driver ?s2 = (g, ?s2\<lparr>faults := gs\<rparr>)" using driver_shape by blast
  have shift: "?s2\<lparr>faults := gs\<rparr> =
      snd (insert_values key ?c ?dl cr pr ttl v pv (s\<lparr>faults := gs\<rparr>))"
    by (simp add: insert_values_def Let_def)
  show ?thesis
  proof (cases f)
    case (Some e)
    then have "snd (Insert d key c dl cr pr ttl v pv s) = ?s1"
      by (simp add: Insert_def Let_def execute_driver [OF d1] queryRow_driver [OF d1] Scan_def)
    then show ?thesis by blast
  next
    case None
    show ?thesis
    proof (cases "LastInsertID d")
      case False
      then have "snd (Insert d key c dl cr pr ttl v pv s) = ?s2"
        using None
        by (simp add: Insert_def Let_def queryRow_driver [OF d1] Scan_def InsertSQL_eq)
      then show ?thesis by blast
    next
      case True
      then have "snd (Insert d key c dl cr pr ttl v pv s) = ?s2\<lparr>faults := gs\<rparr>"
        using None
        by (cases g)
           (simp_all add: Insert_def Let_def execute_driver [OF d1] InsertLastInsertIDSQL_eq
              LastInsertId_driver [OF d2])
      then show ?thesis using shift by metis
    qed
  qed
qed

text \<open>In a run of calls one after the other, an \<open>Insert\<close> that succeeds returns the
  id after the last one handed out, on either path.\<close>

lemma Insert_next_id:
  assumes "Insert d key c dl cr pr ttl v pv s = ((i, None), s')"
  shows "i = last_id s + 1 \<and> last_id s' = i"
proof -
  let ?c = "if c then 1 else 0 :: int" and ?dl = "if dl then 1 else 0 :: int"
  obtain f fs where d1: "driver s = (f, s\<lparr>faults := fs\<rparr>)" using driver_shape by blast
  let ?s2 = "snd (insert_values key ?c ?dl cr pr ttl v pv (s\<lparr>faults := fs\<rparr>))"
  obtain g gs where d2: "driver ?s2 = (g, ?s2\<lparr>faults := gs\<rparr>)" using driver_shape by blast
  have l2: "last_id ?s2 = last_id s + 1" by (simp add: insert_values_def Let_def)
  show ?thesis
  proof (cases f)
    case (Some e)
    then show ?thesis
      using assms by (simp add: Insert_def Let_def execute_driver [OF d1] queryRow_driver [OF d1] Scan_def
          split: if_splits)
  next
    case None
    show ?thesis
    proof (cases "LastInsertID d")
      case False
      then show ?thesis
        using None assms l2
        by (simp add: Insert_def Let_def queryRow_driver [OF d1] Scan_def InsertSQL_eq)
    next
      case True
      then show ?thesis
        using None assms l2
        by (cases g)
           (auto simp: Insert_def Let_def execute_driver [OF d1] InsertLastInsertIDSQL_eq
              LastInsertId_driver [OF d2])
    qed
  qed
qed

lemma deleted_x_eq: "deleted_x = \<lparr>rows = [x_live, x_tomb], last_id = 2, faults = []\<rparr>"
  by (simp add: deleted_x_def empty_table_def Insert_runs insert_values_def Let_def
      x_live_def x_tomb_def)

subsection \<open>The listing statements\<close>

lemma maxkv_member:
  assumes "m \<in> set (maxkv P t)"
  obtains r where "r \<in> set t" and "P r" and "kv_id r = m"
    and "\<And>r'. r' \<in> set t \<Longrightarrow> P r' \<Longrightarrow> kv_name r' = kv_name r \<Longrightarrow> kv_id r' \<le> m"
proof -
  from assms obtain n where n: "n \<in> set (map kv_name (filter P t))"
    and m: "m = Max (set (map kv_id (filter (\<lambda>mkv. kv_name mkv = n) (filter P t))))"
    by (auto simp: maxkv_def Let_def)
  let ?G = "set (map kv_id (filter (\<lambda>mkv. kv_name mkv = n) (filter P t)))"
  have ne: "?G \<noteq> {}" using n by auto
  have fin: "finite ?G" by simp
  from Max_in [OF fin ne] have "m \<in> ?G" using m by simp
  then obtain r where r: "r \<in> set t" "P r" "kv_name r = n" "kv_id r = m" by auto
  have "kv_id r' \<le> m" if "r' \<in> set t" "P r'" "kv_name r' = kv_name r" for r'
  proof -
    have "kv_id r' \<in> ?G" using that r by auto
    then show ?thesis using Max_ge [OF fin] m by simp
  qed
  with r that show ?thesis by blast
qed

lemma listSQL_member:
  assumes "x \<in> set (listSQL extra pat incl t)"
  obtains r where "lr_kv x \<in> set t" and "kv_deleted (lr_kv x) = 0 \<or> incl"
    and "r \<in> set t" and "like pat (kv_name r)" and "extra t r" and "kv_id r = theid x"
    and "\<And>r'. r' \<in> set t \<Longrightarrow> like pat (kv_name r') \<Longrightarrow> extra t r' \<Longrightarrow>
           kv_name r' = kv_name r \<Longrightarrow> kv_id r' \<le> theid x"
proof -
  from assms obtain kv m where kv: "kv \<in> set t" "x = select_columns t kv"
    "kv_deleted kv = 0 \<or> incl"
    "m \<in> set (maxkv (\<lambda>mkv. like pat (kv_name mkv) \<and> extra t mkv) t)" "m = kv_id kv"
    by (auto simp: listSQL_def)
  have id: "theid x = m" and row: "lr_kv x = kv" using kv by (simp_all add: select_columns_def)
  from kv(4) obtain r where r: "r \<in> set t" "like pat (kv_name r) \<and> extra t r" "kv_id r = m"
    and mx: "\<And>r'. r' \<in> set t \<Longrightarrow> like pat (kv_name r') \<and> extra t r' \<Longrightarrow>
               kv_name r' = kv_name r \<Longrightarrow> kv_id r' \<le> m"
    by (rule maxkv_member) blast
  show ?thesis
  proof (rule that [of r])
    show "lr_kv x \<in> set t" using kv(1) row by simp
    show "kv_deleted (lr_kv x) = 0 \<or> incl" using kv(3) row by simp
    show "r \<in> set t" by (rule r(1))
    show "like pat (kv_name r)" using r(2) by simp
    show "extra t r" using r(2) by simp
    show "kv_id r = theid x" using r(3) id by simp
    show "\<And>r'. r' \<in> set t \<Longrightarrow> like pat (kv_name r') \<Longrightarrow> extra t r' \<Longrightarrow>
           kv_name r' = kv_name r \<Longrightarrow> kv_id r' \<le> theid x"
      using mx id by simp
  qed
qed








lemma scalar_revSQL_Nil: "scalar (revSQL []) = None"
  by (simp add: revSQL_def scalar_def)

lemma revSQL_bound:
  assumes "scalar (revSQL t) = Some m" and "r \<in> set t"
  shows "kv_id r \<le> m"
proof -
  from assms(1) obtain x xs where x: "rev (sort_key kv_id t) = x # xs" and m: "m = kv_id x"
    by (cases "rev (sort_key kv_id t)") (auto simp: revSQL_def scalar_def)
  then have eq: "sort_key kv_id t = rev xs @ [x]"
    by (metis rev_eq_Cons_iff)
  have "sorted (map kv_id (sort_key kv_id t))" by (rule sorted_sort_key)
  then have "\<forall>y \<in> set (rev xs). kv_id y \<le> kv_id x"
    by (simp add: eq sorted_append)
  moreover have "r \<in> set (rev xs @ [x])" using assms(2) eq [symmetric] by simp
  ultimately show ?thesis using m by auto
qed

lemma revSQL_None: "scalar (revSQL t) = None \<Longrightarrow> t = []"
  by (cases t) (auto simp: revSQL_def scalar_def split: list.splits)

lemma maxkv_cong: "(\<And>r. r \<in> set t \<Longrightarrow> P r = Q r) \<Longrightarrow> maxkv P t = maxkv Q t"
proof -
  assume "\<And>r. r \<in> set t \<Longrightarrow> P r = Q r"
  then have "filter P t = filter Q t" by (auto intro: filter_cong)
  then show ?thesis by (simp add: maxkv_def)
qed

lemma ListRevisionStartSQL_current:
  assumes "R = (case scalar (revSQL t) of None \<Rightarrow> 0 | Some r \<Rightarrow> r)"
  shows "ListRevisionStartSQL pat R incl t = GetCurrentSQL pat incl t"
proof -
  have "\<And>r. r \<in> set t \<Longrightarrow> kv_id r \<le> R"
    using assms revSQL_bound revSQL_None by (cases "scalar (revSQL t)") fastforce+
  then have "maxkv (\<lambda>mkv. like pat (kv_name mkv) \<and> kv_id mkv \<le> R) t =
             maxkv (\<lambda>mkv. like pat (kv_name mkv) \<and> True) t"
    by (intro maxkv_cong) simp
  then show ?thesis
    by (simp add: ListRevisionStartSQL_def GetCurrentSQL_def listSQL_def)
qed

lemma Count_Some:
  assumes "Count prefix s = ((R, C, None), s1)"
  shows "rows s1 = rows s \<and> R = (case scalar (revSQL (rows s)) of None \<Rightarrow> 0 | Some r \<Rightarrow> r) \<and>
         C = int (length (GetCurrentSQL prefix False (rows s)))"
proof -
  obtain f fs where d: "driver s = (f, s\<lparr>faults := fs\<rparr>)" using driver_shape by blast
  show ?thesis
  proof (cases f)
    case None
    with d assms show ?thesis
      by (auto simp: Count_def queryRow_def reading_def Scan_def CountSQL_def GetCurrentSQL_def)
  next
    case (Some e)
    with d assms show ?thesis
      by (simp add: Count_def queryRow_def Scan_def)
  qed
qed

lemma Count_runs:
  "faults s = [] \<Longrightarrow>
   Count prefix s = (((case scalar (revSQL (rows s)) of None \<Rightarrow> 0 | Some r \<Rightarrow> r),
                      int (length (GetCurrentSQL prefix False (rows s))), None), s)"
  by (simp add: Count_def queryRow_runs reading_def Scan_def CountSQL_def GetCurrentSQL_def)

subsection \<open>The compaction sentinel\<close>

lemma compactRevSQL_none:
  "\<forall>r \<in> set t. kv_name r \<noteq> ''compact_rev_key'' \<Longrightarrow> compactRevSQL t = []"
proof -
  assume "\<forall>r \<in> set t. kv_name r \<noteq> ''compact_rev_key''"
  then have "filter (\<lambda>crkv. kv_name crkv = ''compact_rev_key'') t = []"
    by (simp add: filter_empty_conv)
  then show ?thesis by (simp add: compactRevSQL_def)
qed

lemma UpdateCompactSQL_eq:
  "UpdateCompactSQL R s =
     (\<lparr>rows_affected = int (length (sentinels (rows s))), last_insert_id = 0\<rparr>,
      s\<lparr>rows := map (set_floor R) (rows s)\<rparr>)"
  by (simp add: UpdateCompactSQL_def sentinels_def set_floor_def)

lemma set_floor_absent: "sentinels t = [] \<Longrightarrow> map (set_floor R) t = t"
  by (induction t) (auto simp: sentinels_def set_floor_def split: if_splits)





lemma SetCompactRevision_absent:
  assumes "faults s = []" and "sentinels (rows s) = []"
  shows "SetCompactRevision d R s =
           (None, s\<lparr>rows := rows s @ [compact_row (last_id s + 1) R], last_id := last_id s + 1\<rparr>)"
proof -
  have s': "s\<lparr>rows := map (set_floor R) (rows s)\<rparr> = s"
    using set_floor_absent [OF assms(2)] by simp
  show ?thesis
    using assms
    by (simp add: SetCompactRevision_def execute_runs UpdateCompactSQL_eq s' RowsAffected_runs
        Insert_runs insert_values_def compact_row_def Let_def)
qed

lemma SetCompactRevision_present:
  assumes "faults s = []" and "sentinels (rows s) \<noteq> []"
  shows "SetCompactRevision d R s = (None, s\<lparr>rows := map (set_floor R) (rows s)\<rparr>)"
  using assms
  by (simp add: SetCompactRevision_def execute_runs UpdateCompactSQL_eq RowsAffected_runs)



subsection \<open>Reachable states\<close>

lemma well_formed_faults: "well_formed (s\<lparr>faults := fs\<rparr>) = well_formed s"
  by (simp add: well_formed_def)

lemma well_formed_insert_values:
  assumes "well_formed s" and "c \<in> {0, 1}" and "dl \<in> {0, 1}"
  shows "well_formed (snd (insert_values key c dl cr pr ttl v pv s))"
proof -
  let ?new = "\<lparr>kv_id = last_id s + 1, kv_name = key, kv_created = c, kv_deleted = dl,
               kv_create_revision = cr, kv_prev_revision = pr, kv_lease = ttl, kv_value = v,
               kv_old_value = pv\<rparr>"
  have old: "\<forall>r \<in> set (rows s). 0 < kv_id r \<and> kv_id r \<le> last_id s \<and>
          kv_created r \<in> {0, 1} \<and> kv_deleted r \<in> {0, 1}"
    and dist: "distinct (map kv_id (rows s))" and pos: "0 \<le> last_id s"
    using assms(1) by (simp_all add: well_formed_def)
  have fresh: "last_id s + 1 \<notin> set (map kv_id (rows s))"
    using old by fastforce
  have eq: "snd (insert_values key c dl cr pr ttl v pv s) =
        s\<lparr>rows := rows s @ [?new], last_id := last_id s + 1\<rparr>"
    by (simp add: insert_values_def Let_def)
  have "\<forall>r \<in> set (rows s @ [?new]). 0 < kv_id r \<and> kv_id r \<le> last_id s + 1 \<and>
          kv_created r \<in> {0, 1} \<and> kv_deleted r \<in> {0, 1}"
    using old pos assms(2,3) by fastforce
  moreover have "distinct (map kv_id (rows s @ [?new]))"
    using dist fresh by simp
  ultimately show ?thesis
    unfolding eq well_formed_def using pos by simp
qed

lemma map_kv_id_set_floor: "map kv_id (map (set_floor R) t) = map kv_id t"
  by (induction t) (simp_all add: set_floor_def)

lemma well_formed_set_floor:
  assumes "well_formed s"
  shows "well_formed (s\<lparr>rows := map (set_floor R) (rows s)\<rparr>)"
proof -
  have "distinct (map kv_id (map (set_floor R) (rows s)))"
    using assms by (simp only: map_kv_id_set_floor well_formed_def)
  moreover have "\<forall>r \<in> set (map (set_floor R) (rows s)). 0 < kv_id r \<and> kv_id r \<le> last_id s \<and>
          kv_created r \<in> {0, 1} \<and> kv_deleted r \<in> {0, 1}"
    using assms by (auto simp: well_formed_def set_floor_def)
  moreover have "0 \<le> last_id s" using assms by (simp add: well_formed_def)
  ultimately show ?thesis by (simp add: well_formed_def)
qed

lemma well_formed_filter:
  "well_formed s \<Longrightarrow> well_formed (s\<lparr>rows := filter P (rows s)\<rparr>)"
  by (simp add: well_formed_def distinct_map_filter)

lemma well_formed_Insert:
  assumes "well_formed s"
  shows "well_formed (snd (Insert d key c dl cr pr ttl v pv s))"
proof -
  obtain fs where "snd (Insert d key c dl cr pr ttl v pv s) = s\<lparr>faults := fs\<rparr> \<or>
        snd (Insert d key c dl cr pr ttl v pv s) =
          snd (insert_values key (if c then 1 else 0) (if dl then 1 else 0) cr pr ttl v pv
                 (s\<lparr>faults := fs\<rparr>))"
    using Insert_effect by blast
  moreover have "well_formed (s\<lparr>faults := fs\<rparr>)" using assms by (simp add: well_formed_faults)
  moreover have "well_formed (snd (insert_values key (if c then 1 else 0) (if dl then 1 else 0)
      cr pr ttl v pv (s\<lparr>faults := fs\<rparr>)))"
    by (rule well_formed_insert_values) (simp_all add: assms well_formed_faults)
  ultimately show ?thesis by metis
qed

lemma well_formed_execute:
  assumes "well_formed s" and "\<And>s'. well_formed s' \<Longrightarrow> well_formed (snd (stmt s'))"
  shows "well_formed (snd (execute stmt s))"
proof -
  obtain f fs where d1: "driver s = (f, s\<lparr>faults := fs\<rparr>)" using driver_shape by blast
  have "well_formed (s\<lparr>faults := fs\<rparr>)" using assms(1) by (simp add: well_formed_faults)
  then show ?thesis
    using assms(2) by (cases f) (simp_all add: execute_driver [OF d1])
qed

lemma well_formed_RowsAffected:
  "well_formed s \<Longrightarrow> well_formed (snd (RowsAffected res s))"
  using driver_shape [of s]
  by (auto simp: RowsAffected_def well_formed_faults split: option.splits)

lemma well_formed_UpdateCompactSQL:
  "well_formed s \<Longrightarrow> well_formed (snd (UpdateCompactSQL R s))"
  by (simp add: UpdateCompactSQL_eq well_formed_set_floor)

lemma well_formed_DeleteSQL:
  "well_formed s \<Longrightarrow> well_formed (snd (DeleteSQL R s))"
  by (simp add: DeleteSQL_def well_formed_filter)

lemma well_formed_DeleteRevision:
  assumes "well_formed s"
  shows "well_formed (snd (DeleteRevision r s))"
proof -
  have "snd (DeleteRevision r s) = snd (execute (DeleteSQL r) s)"
    by (simp add: DeleteRevision_def split: prod.splits sum.splits)
  then show ?thesis
    using well_formed_execute [OF assms, of "DeleteSQL r"] well_formed_DeleteSQL by simp
qed

lemma well_formed_SetCompactRevision:
  assumes "well_formed s"
  shows "well_formed (snd (SetCompactRevision d R s))"
proof -
  obtain x s1 where e: "execute (UpdateCompactSQL R) s = (x, s1)" by (cases "execute (UpdateCompactSQL R) s")
  have w1: "well_formed s1"
    using well_formed_execute [OF assms, of "UpdateCompactSQL R"] well_formed_UpdateCompactSQL e
    by simp
  show ?thesis
  proof (cases x)
    case (Inl err)
    then show ?thesis using e w1 by (simp add: SetCompactRevision_def)
  next
    case (Inr res)
    obtain y s2 where ra: "RowsAffected res s1 = (y, s2)" by (cases "RowsAffected res s1")
    have w2: "well_formed s2" using well_formed_RowsAffected [OF w1, of res] ra by simp
    show ?thesis
    proof (cases y)
      case (Inl err)
      then show ?thesis using e Inr ra w2 by (simp add: SetCompactRevision_def)
    next
      case (Inr num)
      show ?thesis
      proof (cases "num = 0")
        case False
        then show ?thesis using e \<open>x = Inr res\<close> ra Inr w2 by (simp add: SetCompactRevision_def)
      next
        case True
        have "snd (SetCompactRevision d R s) =
              snd (Insert d ''compact_rev_key'' False False 0 R 0 (Some []) None s2)"
          using e \<open>x = Inr res\<close> ra Inr True
          by (simp add: SetCompactRevision_def split: prod.splits)
        then show ?thesis using well_formed_Insert [OF w2] by simp
      qed
    qed
  qed
qed

lemma reachable_well_formed: "reachable d s \<Longrightarrow> well_formed s"
proof (induction rule: reachable.induct)
  case (fresh fs)
  show ?case by (simp add: well_formed_def)
next
  case (after_Insert s key create delete createRevision previousRevision ttl val prevValue)
  then show ?case by (simp add: well_formed_Insert)
next
  case (after_SetCompactRevision s revision)
  then show ?case by (simp add: well_formed_SetCompactRevision)
next
  case (after_DeleteRevision s revision)
  then show ?case by (simp add: well_formed_DeleteRevision)
next
  case (driver_plan s fs)
  then show ?case by (simp add: well_formed_faults)
qed

lemma reachable_distinct_ids: "reachable d s \<Longrightarrow> distinct (map kv_id (rows s))"
  using reachable_well_formed [of d s] by (simp add: well_formed_def)

subsection \<open>Snapshot reads\<close>

text \<open>
  C2. For every prefix, limit, revision \<open>R\<close> and flag, whatever the table holds and
  whatever the driver does, every row that \<open>List(prefix, "", limit, R, includeDeleted)\<close>
  returns has an id of at most \<open>R\<close>.
\<close>

theorem List_at_most_revision:
  assumes "fst (List prefix [] limit R includeDeleted s) = Inr rs" and "r \<in> set rs"
  shows "theid r \<le> R"
proof -
  from assms(1) have "rs = with_limit limit (ListRevisionStartSQL prefix R includeDeleted) (rows s)"
    by (simp add: List_def query_Inr)
  with assms(2) have "r \<in> set (ListRevisionStartSQL prefix R includeDeleted (rows s))"
    using set_with_limit by fastforce
  then have "r \<in> set (listSQL (\<lambda>t mkv. kv_id mkv \<le> R) prefix includeDeleted (rows s))"
    by (simp add: ListRevisionStartSQL_def)
  then obtain mkv :: kv_row where "kv_id mkv \<le> R" and "kv_id mkv = theid r"
    by (rule listSQL_member) blast
  then show ?thesis by simp
qed

text \<open>
  The key \<open>x\<close> written at revision 1 and deleted at revision 2: the listing at
  revision 1 is the row of revision 1.
\<close>

theorem List_at_most_revision_witness:
  "fst (List ''x'' [] 0 1 False deleted_x) =
     Inr [\<lparr>lr_rev = Some 2, lr_compact = None, lr_kv = x_live\<rparr>] \<and>
   theid \<lparr>lr_rev = Some 2, lr_compact = None, lr_kv = x_live\<rparr> \<le> 1"
proof -
  have h: "fst (List ''x'' [] 0 1 False deleted_x) =
     Inr [\<lparr>lr_rev = Some 2, lr_compact = None, lr_kv = x_live\<rparr>]"
    by code_simp
  have "theid \<lparr>lr_rev = Some 2, lr_compact = None, lr_kv = x_live\<rparr> \<le> 1"
    by (rule List_at_most_revision [OF h]) simp
  with h show ?thesis by simp
qed

text \<open>
  C3. When \<open>Count(prefix)\<close> returns \<open>(R', C)\<close> without error and
  \<open>List(prefix, "", 0, R', false)\<close> is then run on the same table, it returns
  exactly \<open>C\<close> rows; and when the driver fails no call both do return, on an unchanged
  state. \<open>Count\<close> reads the revision and the count with one statement, on one table.
\<close>

theorem Count_matches_List:
  "(Count prefix s = ((R, C, None), s1) \<and> fst (List prefix [] 0 R False s1) = Inr rs
      \<longrightarrow> int (length rs) = C) \<and>
   (faults s = [] \<longrightarrow> (\<exists>R C rs. Count prefix s = ((R, C, None), s) \<and>
      List prefix [] 0 R False s = (Inr rs, s) \<and> int (length rs) = C))"
proof (intro conjI impI)
  assume a: "Count prefix s = ((R, C, None), s1) \<and> fst (List prefix [] 0 R False s1) = Inr rs"
  then have c: "rows s1 = rows s" "R = (case scalar (revSQL (rows s)) of None \<Rightarrow> 0 | Some r \<Rightarrow> r)"
    "C = int (length (GetCurrentSQL prefix False (rows s)))"
    using Count_Some by blast+
  from a have "rs = ListRevisionStartSQL prefix R False (rows s1)"
    by (simp add: List_def with_limit_none query_Inr)
  then show "int (length rs) = C"
    using c ListRevisionStartSQL_current [of R "rows s" prefix False] by simp
next
  assume f: "faults s = []"
  let ?R = "case scalar (revSQL (rows s)) of None \<Rightarrow> 0 | Some r \<Rightarrow> r"
  have "List prefix [] 0 ?R False s = (Inr (GetCurrentSQL prefix False (rows s)), s)"
    using f ListRevisionStartSQL_current [of ?R "rows s" prefix False]
    by (simp add: List_def with_limit_none query_runs)
  then show "\<exists>R C rs. Count prefix s = ((R, C, None), s) \<and>
      List prefix [] 0 R False s = (Inr rs, s) \<and> int (length rs) = C"
    using Count_runs [OF f] by simp
qed

text \<open>
  After one \<open>Insert\<close> of the key \<open>x\<close>: the count is 1 at revision 1, and the
  listing at revision 1 has one row.
\<close>

theorem Count_matches_List_witness:
  "Count ''x'' (snd (Insert returning_engine ''x'' True False 0 0 0 (Some ''v'') None empty_table)) =
     ((1, 1, None), \<lparr>rows = [x_live], last_id = 1, faults = []\<rparr>) \<and>
   fst (List ''x'' [] 0 1 False \<lparr>rows = [x_live], last_id = 1, faults = []\<rparr>) =
     Inr [\<lparr>lr_rev = Some 1, lr_compact = None, lr_kv = x_live\<rparr>] \<and>
   int (length [\<lparr>lr_rev = Some 1, lr_compact = None, lr_kv = x_live\<rparr>]) = 1"
proof -
  let ?s = "snd (Insert returning_engine ''x'' True False 0 0 0 (Some ''v'') None empty_table)"
  let ?s1 = "\<lparr>rows = [x_live], last_id = 1, faults = []\<rparr>"
  let ?r = "\<lparr>lr_rev = Some 1, lr_compact = None, lr_kv = x_live\<rparr>"
  have c: "Count ''x'' ?s = ((1, 1, None), ?s1)" by code_simp
  have l: "fst (List ''x'' [] 0 1 False ?s1) = Inr [?r]" by code_simp
  have "int (length [?r]) = 1"
    using Count_matches_List [of "''x''" ?s 1 1 ?s1 "[?r]"] c l by blast
  with c l show ?thesis by blast
qed

subsection \<open>Compaction\<close>




text \<open>
  C7. For every revision \<open>R\<close>, when the driver fails no call, \<open>SetCompactRevision(R)\<close>
  returns nil, and: if the update statement affected zero rows, the table afterwards is the
  old table followed by one new row named \<open>compact_rev_key\<close> with \<open>prev_revision = R\<close>,
  both flags 0, \<open>create_revision\<close> 0, lease 0, the empty byte string as value and no old
  value; if it affected some row, the table afterwards is the updated table, with as many
  rows as before.
\<close>

theorem SetCompactRevision_insert_iff_absent:
  assumes "faults s = []"
  shows "fst (SetCompactRevision d R s) = None \<and>
         (if rows_affected (fst (UpdateCompactSQL R s)) = 0
          then rows (snd (SetCompactRevision d R s)) =
                 rows s @ [\<lparr>kv_id = last_id s + 1, kv_name = ''compact_rev_key'', kv_created = 0,
                            kv_deleted = 0, kv_create_revision = 0, kv_prev_revision = R,
                            kv_lease = 0, kv_value = Some [], kv_old_value = None\<rparr>]
          else rows (snd (SetCompactRevision d R s)) = rows (snd (UpdateCompactSQL R s)) \<and>
               length (rows (snd (SetCompactRevision d R s))) = length (rows s))"
proof (cases "sentinels (rows s) = []")
  case True
  then show ?thesis
    using SetCompactRevision_absent [OF assms True, of d R]
    by (simp add: UpdateCompactSQL_eq compact_row_def)
next
  case False
  then show ?thesis
    using SetCompactRevision_present [OF assms False, of d R]
    by (simp add: UpdateCompactSQL_eq)
qed

text \<open>
  On the empty table the update affects no row and the sentinel is inserted with id 1.
\<close>

theorem SetCompactRevision_insert_iff_absent_witness:
  "faults empty_table = [] \<and>
   rows_affected (fst (UpdateCompactSQL 5 empty_table)) = 0 \<and>
   fst (SetCompactRevision returning_engine 5 empty_table) = None \<and>
   rows (snd (SetCompactRevision returning_engine 5 empty_table)) =
     [\<lparr>kv_id = 1, kv_name = ''compact_rev_key'', kv_created = 0, kv_deleted = 0,
       kv_create_revision = 0, kv_prev_revision = 5, kv_lease = 0, kv_value = Some [],
       kv_old_value = None\<rparr>]"
proof -
  have f: "faults empty_table = []" by (simp add: empty_table_def)
  have z: "rows_affected (fst (UpdateCompactSQL 5 empty_table)) = 0"
    by (simp add: UpdateCompactSQL_def empty_table_def)
  show ?thesis
    using SetCompactRevision_insert_iff_absent [OF f, of returning_engine 5] f z
    by (simp add: empty_table_def)
qed

subsection \<open>Not found is not an error\<close>

text \<open>
  C6. When the driver fails no call: \<open>GetCompactRevision\<close> returns \<open>(0, nil)\<close> on a
  table without a sentinel row, \<open>CurrentRevision\<close> returns \<open>(0, nil)\<close> on an empty
  table, and \<open>Count\<close> on an empty table returns revision 0 and count 0 with a nil error
  (the NULL of the absent maximum id is scanned into a \<open>NullInt64\<close>, whose number is 0).
\<close>

theorem not_found_is_zero:
  assumes "faults s = []"
  shows "((\<forall>r \<in> set (rows s). kv_name r \<noteq> ''compact_rev_key'') \<longrightarrow>
            GetCompactRevision s = ((0, None), s)) \<and>
         (rows s = [] \<longrightarrow> CurrentRevision s = ((0, None), s)) \<and>
         (rows s = [] \<longrightarrow> Count prefix s = ((0, 0, None), s))"
proof (intro conjI impI)
  assume "\<forall>r \<in> set (rows s). kv_name r \<noteq> ''compact_rev_key''"
  then show "GetCompactRevision s = ((0, None), s)"
    using assms by (simp add: GetCompactRevision_def queryRow_runs reading_def Scan_def compactRevSQL_none)
next
  assume "rows s = []"
  then show "CurrentRevision s = ((0, None), s)"
    using assms by (simp add: CurrentRevision_def queryRow_runs reading_def Scan_def revSQL_def)
next
  assume "rows s = []"
  then show "Count prefix s = ((0, 0, None), s)"
    using assms by (simp add: Count_runs scalar_revSQL_Nil GetCurrentSQL_def listSQL_def maxkv_def)
qed

text \<open>
  The three calls on the empty table.
\<close>

theorem not_found_is_zero_witness:
  "faults empty_table = [] \<and>
   GetCompactRevision empty_table = ((0, None), empty_table) \<and>
   CurrentRevision empty_table = ((0, None), empty_table) \<and>
   Count ''%'' empty_table = ((0, 0, None), empty_table)"
proof -
  have f: "faults empty_table = []" by (simp add: empty_table_def)
  show ?thesis
    using not_found_is_zero [OF f, of "''%''"] f by (simp add: empty_table_def)
qed

text \<open>
  C9. For every revision \<open>r\<close>, the error \<open>DeleteRevision(r)\<close> returns is exactly what
  the driver reports for the one statement it executes (nil when the statement runs,
  whether or not it deleted a row: the rows affected are not looked at); and when no row
  has \<open>id = r\<close> the rows of the table and the id generator are unchanged.
\<close>

theorem DeleteRevision_absent:
  "fst (DeleteRevision r s) = fst (driver s) \<and>
   ((\<forall>row \<in> set (rows s). kv_id row \<noteq> r) \<longrightarrow>
      rows (snd (DeleteRevision r s)) = rows s \<and> last_id (snd (DeleteRevision r s)) = last_id s)"
  by (auto simp: DeleteRevision_def execute_def driver_def DeleteSQL_def
      split: list.splits option.splits prod.splits)

text \<open>
  Deleting revision 7 from a table with revisions 1 and 2.
\<close>

theorem DeleteRevision_absent_witness:
  "fst (DeleteRevision 7 deleted_x) = None \<and>
   rows (snd (DeleteRevision 7 deleted_x)) = [x_live, x_tomb]"
proof -
  have d: "fst (driver deleted_x) = None" by (simp add: deleted_x_eq driver_def)
  have a: "\<forall>row \<in> set (rows deleted_x). kv_id row \<noteq> 7"
    by (simp add: deleted_x_eq x_live_def x_tomb_def)
  show ?thesis
    using DeleteRevision_absent [of 7 deleted_x] d a by (simp add: deleted_x_eq)
qed

subsection \<open>Flags and tombstones\<close>

text \<open>
  C10. Whatever the driver does, \<open>Insert\<close> either leaves the rows as they are or appends
  one row whose \<open>created\<close> and \<open>deleted\<close> columns are 1 for true and 0 for false; and in
  every state the driver can reach from the empty table, every row has \<open>created\<close> and
  \<open>deleted\<close> in \<open>{0, 1}\<close>.
\<close>

theorem Insert_flags_0_or_1:
  "(rows (snd (Insert d key create delete cr pr ttl v pv s)) = rows s \<or>
    rows (snd (Insert d key create delete cr pr ttl v pv s)) =
      rows s @ [\<lparr>kv_id = last_id s + 1, kv_name = key,
                 kv_created = (if create then 1 else 0), kv_deleted = (if delete then 1 else 0),
                 kv_create_revision = cr, kv_prev_revision = pr, kv_lease = ttl,
                 kv_value = v, kv_old_value = pv\<rparr>]) \<and>
   (reachable d s \<longrightarrow>
      (\<forall>r \<in> set (rows s). kv_created r \<in> {0, 1} \<and> kv_deleted r \<in> {0, 1}))"
proof
  obtain fs where "snd (Insert d key create delete cr pr ttl v pv s) = s\<lparr>faults := fs\<rparr> \<or>
        snd (Insert d key create delete cr pr ttl v pv s) =
          snd (insert_values key (if create then 1 else 0) (if delete then 1 else 0) cr pr ttl v pv
                 (s\<lparr>faults := fs\<rparr>))"
    using Insert_effect by blast
  then show "rows (snd (Insert d key create delete cr pr ttl v pv s)) = rows s \<or>
    rows (snd (Insert d key create delete cr pr ttl v pv s)) =
      rows s @ [\<lparr>kv_id = last_id s + 1, kv_name = key,
                 kv_created = (if create then 1 else 0), kv_deleted = (if delete then 1 else 0),
                 kv_create_revision = cr, kv_prev_revision = pr, kv_lease = ttl,
                 kv_value = v, kv_old_value = pv\<rparr>]"
    by (auto simp: insert_values_def Let_def)
next
  show "reachable d s \<longrightarrow>
      (\<forall>r \<in> set (rows s). kv_created r \<in> {0, 1} \<and> kv_deleted r \<in> {0, 1})"
    using reachable_well_formed [of d s] by (simp add: well_formed_def)
qed

text \<open>
  The table of the deleted key \<open>x\<close> is reachable, and its last row, the tombstone, has
  both flags in \<open>{0, 1}\<close>.
\<close>

theorem Insert_flags_0_or_1_witness:
  "reachable returning_engine deleted_x \<and> last (rows deleted_x) = x_tomb \<and>
   kv_created x_tomb \<in> {0, 1} \<and> kv_deleted x_tomb \<in> {0, 1}"
proof -
  have "reachable returning_engine empty_table"
    unfolding empty_table_def by (rule reachable.fresh)
  then have r: "reachable returning_engine deleted_x"
    unfolding deleted_x_def by (intro reachable.after_Insert)
  have l: "last (rows deleted_x) = x_tomb" and m: "x_tomb \<in> set (rows deleted_x)"
    by (simp_all add: deleted_x_eq)
  from Insert_flags_0_or_1 [of returning_engine "''x''" True False 0 0 0 None None deleted_x] r
  have "\<forall>r \<in> set (rows deleted_x). kv_created r \<in> {0, 1} \<and> kv_deleted r \<in> {0, 1}"
    by blast
  with m have "kv_created x_tomb \<in> {0, 1} \<and> kv_deleted x_tomb \<in> {0, 1}" by blast
  with r l show ?thesis by blast
qed




end
